theory Spec2Isabelle
  imports Main "HOL-Library.AList" "HOL-Library.FSet"
begin

section \<open>Python values used by get_image.py\<close>

text \<open>
  Strings are character lists; a character stands for a code point below 256.
  A \<^verbatim>\<open>dict[str, str]\<close> is an association list in insertion order with Python's
  update discipline (\<^const>\<open>AList.update\<close> overwrites in place or appends,
  \<^const>\<open>AList.delete\<close> removes the key); a \<^verbatim>\<open>set[str]\<close> is a finite set.
  Every exception the program can raise is a value of \<open>py_error\<close>.
\<close>

datatype py_error =
    KeyError string
  | ValueError
  | FileNotFoundError
  | HTTPError nat
  | ConnectionError
  | StreamError

subsection \<open>Decimal rendering of integers in f-strings\<close>

definition digit_char :: "nat \<Rightarrow> char" where
  "digit_char d = char_of (48 + d)"

fun str_nat :: "nat \<Rightarrow> string" where
  "str_nat n = (if n < 10 then [digit_char n] else str_nat (n div 10) @ [digit_char (n mod 10)])"

declare str_nat.simps [simp del]

definition str_int :: "int \<Rightarrow> string" where
  "str_int i = (if i < 0 then CHR ''-'' # str_nat (nat (- i)) else str_nat (nat i))"

definition digit_val :: "char \<Rightarrow> nat" where
  "digit_val c = of_char c - 48"

definition nat_of_digits :: "string \<Rightarrow> nat" where
  "nat_of_digits s = foldl (\<lambda>a c. 10 * a + digit_val c) 0 s"

lemma digit_val_digit_char: "d < 10 \<Longrightarrow> digit_val (digit_char d) = d"
  by (simp add: digit_val_def digit_char_def)

lemma nat_of_digits_str_nat: "nat_of_digits (str_nat n) = n"
proof (induction n rule: str_nat.induct)
  case (1 n)
  show ?case
  proof (cases "n < 10")
    case True
    then show ?thesis
      by (subst str_nat.simps) (simp add: nat_of_digits_def digit_val_digit_char)
  next
    case False
    with 1 have ih: "nat_of_digits (str_nat (n div 10)) = n div 10" by simp
    have "nat_of_digits (str_nat n) =
            10 * nat_of_digits (str_nat (n div 10)) + digit_val (digit_char (n mod 10))"
      using False by (subst str_nat.simps) (simp add: nat_of_digits_def)
    also have "\<dots> = 10 * (n div 10) + n mod 10"
      by (simp add: ih digit_val_digit_char)
    finally show ?thesis by simp
  qed
qed

lemma str_nat_inj: "str_nat m = str_nat n \<Longrightarrow> m = n"
  by (metis nat_of_digits_str_nat)

subsection \<open>str.strip and re.sub on character classes\<close>

text \<open>
  \<^verbatim>\<open>str.strip()\<close> and the regular expression class \<^verbatim>\<open>\s\<close> both use Python's
  Unicode whitespace test; below 256 these are the code points listed here.
\<close>

definition is_space :: "char \<Rightarrow> bool" where
  "is_space c = ((of_char c :: nat) \<in> {9, 10, 11, 12, 13, 28, 29, 30, 31, 32, 133, 160})"

definition is_illegal :: "char \<Rightarrow> bool" where
  "is_illegal c = (c \<in> {CHR 0x5C, CHR ''/'', CHR '':'', CHR ''*'', CHR ''?'', CHR 0x22,
                         CHR ''<'', CHR ''>'', CHR ''|''})"

definition is_underscore :: "char \<Rightarrow> bool" where
  "is_underscore c = (c = CHR ''_'')"

definition strip_chars :: "(char \<Rightarrow> bool) \<Rightarrow> string \<Rightarrow> string" where
  "strip_chars P s = rev (dropWhile P (rev (dropWhile P s)))"

text \<open>\<^verbatim>\<open>re.sub(r"[class]+", "_", s)\<close>: every maximal run of the class becomes one underscore.\<close>

function sub_runs :: "(char \<Rightarrow> bool) \<Rightarrow> string \<Rightarrow> string" where
  "sub_runs P [] = []"
| "sub_runs P (c # cs) =
     (if P c then CHR ''_'' # sub_runs P (dropWhile P cs) else c # sub_runs P cs)"
  by pat_completeness auto
termination
  by (relation "measure (\<lambda>(P, s). length s)")
     (auto simp: less_Suc_eq_le length_dropWhile_le)

subsection \<open>The filename deriver\<close>

definition sanitize_title :: "string \<Rightarrow> string" where
  "sanitize_title title =
     (let cleaned = sub_runs is_space (strip_chars is_space title);
          cleaned = sub_runs is_illegal cleaned;
          cleaned = sub_runs is_underscore cleaned;
          cleaned = strip_chars is_underscore cleaned
      in if cleaned \<noteq> [] then cleaned else ''image'')"

text \<open>
  \<^verbatim>\<open>pathlib\<close> (POSIX flavour, Python 3.12): the name of a path is its last component
  that is neither empty nor a single dot; the suffix starts at the last dot of the name
  when that dot is neither its first nor its last character.
\<close>

fun split_on :: "char \<Rightarrow> string \<Rightarrow> string list" where
  "split_on sep [] = [[]]"
| "split_on sep (c # cs) =
     (if c = sep then [] # split_on sep cs
      else (let r = split_on sep cs in (c # hd r) # tl r))"

definition path_name :: "string \<Rightarrow> string" where
  "path_name p =
     (case filter (\<lambda>x. x \<noteq> [] \<and> x \<noteq> ''.'') (split_on CHR ''/'' p) of
        [] \<Rightarrow> []
      | x # xs \<Rightarrow> last (x # xs))"

definition rfind :: "char \<Rightarrow> string \<Rightarrow> int" where
  "rfind c s =
     (case filter (\<lambda>i. s ! i = c) (rev [0..<length s]) of
        [] \<Rightarrow> - 1
      | i # _ \<Rightarrow> int i)"

definition path_suffix :: "string \<Rightarrow> string" where
  "path_suffix p =
     (let name = path_name p; i = rfind CHR ''.'' name
      in if 0 < i \<and> i < int (length name) - 1 then drop (nat i) name else [])"

definition path_stem :: "string \<Rightarrow> string" where
  "path_stem p =
     (let name = path_name p; i = rfind CHR ''.'' name
      in if 0 < i \<and> i < int (length name) - 1 then take (nat i) name else name)"

text \<open>
  \<^verbatim>\<open>urllib.parse.urlparse\<close> is library code: the deriver takes the function that
  yields \<^verbatim>\<open>urlparse(url).path\<close>, or the exception it raises, as its first argument.
\<close>

definition filename_from_title ::
  "(string \<Rightarrow> py_error + string) \<Rightarrow> string \<Rightarrow> string \<Rightarrow> int \<Rightarrow> int \<Rightarrow> py_error + string \<times> string" where
  "filename_from_title urlparse_path title url index total_n =
     (case urlparse_path url of
        Inl exc \<Rightarrow> Inl exc
      | Inr path \<Rightarrow>
          (let ext = path_suffix path;
               ext = (if ext = [] then ''.jpg'' else ext);
               base_title = (if sanitize_title title \<noteq> [] then sanitize_title title
                             else sanitize_title (path_stem path));
               base_title = (if total_n > 1 then base_title @ ''_'' @ str_int (index + 1)
                             else base_title)
           in Inr (base_title, ext)))"

text \<open>
  An instance of the parser for plain URLs \<^verbatim>\<open>scheme://authority/path?query#fragment\<close>
  (no parameters, brackets or control characters), following \<^verbatim>\<open>urlsplit\<close>: an
  optional scheme up to the first colon, an authority after two slashes up to the first
  of slash, question mark and hash, then the path up to the first hash or question mark.
\<close>

definition is_scheme_char :: "char \<Rightarrow> bool" where
  "is_scheme_char c =
     (let n = (of_char c :: nat)
      in (65 \<le> n \<and> n \<le> 90) \<or> (97 \<le> n \<and> n \<le> 122) \<or> (48 \<le> n \<and> n \<le> 57)
         \<or> c \<in> {CHR ''+'', CHR ''-'', CHR ''.''})"

definition is_ascii_alpha :: "char \<Rightarrow> bool" where
  "is_ascii_alpha c =
     (let n = (of_char c :: nat) in (65 \<le> n \<and> n \<le> 90) \<or> (97 \<le> n \<and> n \<le> 122))"

definition drop_scheme :: "string \<Rightarrow> string" where
  "drop_scheme url =
     (let pre = takeWhile (\<lambda>c. c \<noteq> CHR '':'') url
      in if pre \<noteq> [] \<and> length pre < length url \<and> is_ascii_alpha (hd url)
            \<and> list_all is_scheme_char pre
         then drop (length pre + 1) url else url)"

definition drop_netloc :: "string \<Rightarrow> string" where
  "drop_netloc url =
     (if take 2 url = ''//''
      then dropWhile (\<lambda>c. c \<notin> {CHR ''/'', CHR ''?'', CHR ''#''}) (drop 2 url)
      else url)"

definition plain_url_path :: "string \<Rightarrow> py_error + string" where
  "plain_url_path url =
     Inr (takeWhile (\<lambda>c. c \<noteq> CHR ''?'')
            (takeWhile (\<lambda>c. c \<noteq> CHR ''#'') (drop_netloc (drop_scheme url))))"

section \<open>The filename resolver\<close>

definition conflict_cache :: "string \<Rightarrow> string \<Rightarrow> (string \<times> string) list \<Rightarrow> bool" where
  "conflict_cache candidate url image_cache =
     (case map_of image_cache candidate of None \<Rightarrow> False | Some u \<Rightarrow> u \<noteq> url)"

definition conflict_reserved :: "string \<Rightarrow> (string \<times> string) list \<Rightarrow> string fset \<Rightarrow> bool" where
  "conflict_reserved candidate image_cache reserved =
     (candidate |\<in>| reserved \<and> map_of image_cache candidate = None)"

text \<open>The f-string \<^verbatim>\<open>f"{base}_{counter}{ext}"\<close>; the counter starts at 2 and only grows.\<close>

definition numbered :: "string \<Rightarrow> string \<Rightarrow> nat \<Rightarrow> string" where
  "numbered base ext counter = base @ ''_'' @ str_nat counter @ ext"

definition claimed :: "(string \<times> string) list \<Rightarrow> string fset \<Rightarrow> string set" where
  "claimed image_cache reserved = fst ` set image_cache \<union> fset reserved"

lemma numbered_inj: "numbered base ext j = numbered base ext k \<Longrightarrow> j = k"
  by (simp add: numbered_def str_nat_inj)

lemma finite_claimed: "finite (claimed image_cache reserved)"
  by (simp add: claimed_def)

lemma finite_later:
  "finite {k. counter \<le> k \<and> numbered base ext k \<in> claimed image_cache reserved}"
proof -
  have "finite (numbered base ext -` claimed image_cache reserved)"
    by (rule finite_vimageI) (auto simp: finite_claimed inj_on_def dest: numbered_inj)
  then show ?thesis
    by (rule rev_finite_subset) auto
qed

lemma conflict_claimed:
  "conflict_cache c url image_cache \<or> conflict_reserved c image_cache reserved
     \<Longrightarrow> c \<in> claimed image_cache reserved"
  by (auto simp: conflict_cache_def conflict_reserved_def claimed_def
           split: option.splits dest: map_of_SomeD intro: rev_image_eqI)

function choose_loop ::
  "string \<Rightarrow> string \<Rightarrow> string \<Rightarrow> (string \<times> string) list \<Rightarrow> string fset \<Rightarrow> string \<Rightarrow> nat \<Rightarrow> string" where
  "choose_loop base ext url image_cache reserved candidate counter =
     (if conflict_cache candidate url image_cache \<or> conflict_reserved candidate image_cache reserved
      then choose_loop base ext url image_cache reserved (numbered base ext counter) (counter + 1)
      else candidate)"
  by pat_completeness auto

termination
proof (relation "measure (\<lambda>(base, ext, url, image_cache, reserved, candidate, counter).
          2 * card {k. counter \<le> k \<and> numbered base ext k \<in> claimed image_cache reserved}
          + (if candidate \<in> claimed image_cache reserved then 1 else 0))", goal_cases)
  case 1
  show ?case by simp
next
  case (2 base ext url image_cache reserved candidate counter)
  let ?S = "claimed image_cache reserved"
  let ?A = "{k. counter \<le> k \<and> numbered base ext k \<in> ?S}"
  let ?B = "{k. counter + 1 \<le> k \<and> numbered base ext k \<in> ?S}"
  from 2 have cin: "candidate \<in> ?S" by (rule conflict_claimed)
  have fin: "finite ?A" by (rule finite_later)
  show ?case
  proof (cases "numbered base ext counter \<in> ?S")
    case True
    have "counter \<in> ?A" "counter \<notin> ?B" "?B \<subseteq> ?A" using True by auto
    then have "?B \<subset> ?A" by blast
    then have "card ?B < card ?A" using fin by (rule psubset_card_mono[rotated])
    then show ?thesis using cin True by simp
  next
    case False
    have "?B = ?A" using False by (auto simp: Suc_le_eq intro: le_neq_implies_less)
    then show ?thesis using cin False by simp
  qed
qed

declare choose_loop.simps [simp del]

definition choose_filename ::
  "string \<Rightarrow> string \<Rightarrow> string \<Rightarrow> (string \<times> string) list \<Rightarrow> string fset \<Rightarrow> string" where
  "choose_filename base ext url image_cache reserved =
     choose_loop base ext url image_cache reserved (base @ ext) 2"

text \<open>The candidates in the order the loop tries them.\<close>

fun tried :: "string \<Rightarrow> string \<Rightarrow> nat \<Rightarrow> string" where
  "tried base ext 0 = base @ ext"
| "tried base ext (Suc n) = numbered base ext (n + 2)"

section \<open>The file system and the network\<close>

text \<open>
  The file system maps a path to the content of the file there. Every primitive the
  program performs is applied to it and recorded, in order, in a trace, together with
  each HTTP request; a crash leaves the file system as some prefix of the trace made it.
  Directories are not modelled, \<^verbatim>\<open>rename\<close> and \<^verbatim>\<open>replace\<close> overwrite their target
  (POSIX), and the primitives themselves do not fail.
\<close>

type_synonym path = string
type_synonym fs = "path \<rightharpoonup> string"

datatype fs_op =
    OpenW path
  | Write path string
  | Replace path path
  | Rename path path
  | Unlink path

fun apply_op :: "fs_op \<Rightarrow> fs \<Rightarrow> fs" where
  "apply_op (OpenW p) f = f(p \<mapsto> [])"
| "apply_op (Write p d) f = (case f p of None \<Rightarrow> f | Some old \<Rightarrow> f(p \<mapsto> old @ d))"
| "apply_op (Replace src dst) f = (f(dst := f src))(src := None)"
| "apply_op (Rename src dst) f = (f(dst := f src))(src := None)"
| "apply_op (Unlink p) f = f(p := None)"

fun op_paths :: "fs_op \<Rightarrow> path list" where
  "op_paths (OpenW p) = [p]"
| "op_paths (Write p d) = [p]"
| "op_paths (Replace src dst) = [src, dst]"
| "op_paths (Rename src dst) = [src, dst]"
| "op_paths (Unlink p) = [p]"

datatype event = Get string | Fs fs_op

fun is_get :: "event \<Rightarrow> bool" where
  "is_get (Get u) = True"
| "is_get (Fs opn) = False"

fun touches :: "path \<Rightarrow> event \<Rightarrow> bool" where
  "touches p (Get u) = False"
| "touches p (Fs opn) = (p \<in> set (op_paths opn))"

fun apply_event :: "event \<Rightarrow> fs \<Rightarrow> fs" where
  "apply_event (Get u) f = f"
| "apply_event (Fs opn) f = apply_op opn f"

definition replay :: "event list \<Rightarrow> fs \<Rightarrow> fs" where
  "replay evs f = fold apply_event evs f"

record world =
  files :: fs
  trace :: "event list"

definition do_op :: "fs_op \<Rightarrow> world \<Rightarrow> world" where
  "do_op opn w = w\<lparr>files := apply_op opn (files w), trace := trace w @ [Fs opn]\<rparr>"

definition do_ops :: "fs_op list \<Rightarrow> world \<Rightarrow> world" where
  "do_ops ops w = fold do_op ops w"

definition path_exists :: "world \<Rightarrow> path \<Rightarrow> bool" where
  "path_exists w p = (files w p \<noteq> None)"

text \<open>The number of requests sent so far indexes the network's answers.\<close>

definition gets :: "world \<Rightarrow> nat" where
  "gets w = length (filter is_get (trace w))"

section \<open>The asset fetcher\<close>

text \<open>
  What one \<^verbatim>\<open>session.get\<close> call and the streaming of its body do is the environment's
  choice: the call raises (a transport error, or the adapter's own retries are
  exhausted), or it returns a response with a status code whose body yields the given
  chunks and then ends or, when the flag is set, raises.
\<close>

datatype attempt =
    TransportError
  | Response nat "string list" bool

definition raise_for_status :: "nat \<Rightarrow> py_error option" where
  "raise_for_status status = (if 400 \<le> status \<and> status < 600 then Some (HTTPError status) else None)"

text \<open>The body of the \<^verbatim>\<open>try\<close> block of one attempt.\<close>

definition try_fetch :: "attempt \<Rightarrow> string \<Rightarrow> path \<Rightarrow> path \<Rightarrow> world \<Rightarrow> py_error option \<times> world" where
  "try_fetch answer url temp_path destination w =
     (let w1 = w\<lparr>trace := trace w @ [Get url]\<rparr>
      in case answer of
           TransportError \<Rightarrow> (Some ConnectionError, w1)
         | Response status chunks broken \<Rightarrow>
             (case raise_for_status status of
                Some exc \<Rightarrow> (Some exc, w1)
              | None \<Rightarrow>
                  (let w2 = do_ops (map (Write temp_path) (filter (\<lambda>chunk. chunk \<noteq> []) chunks))
                                   (do_op (OpenW temp_path) w1)
                   in if broken then (Some StreamError, w2)
                      else (None, do_op (Replace temp_path destination) w2))))"

function download_loop ::
  "(nat \<Rightarrow> attempt) \<Rightarrow> string \<Rightarrow> path \<Rightarrow> path \<Rightarrow> int \<Rightarrow> int \<Rightarrow> world \<Rightarrow> py_error option \<times> world" where
  "download_loop net url temp_path destination retries attempt_no w =
     (if attempt_no > retries then (None, w)
      else (case try_fetch (net (gets w)) url temp_path destination w of
              (None, w') \<Rightarrow> (None, w')
            | (Some exc, w') \<Rightarrow>
                (let w'' = do_op (Unlink temp_path) w'
                 in if attempt_no = retries then (Some exc, w'')
                    else download_loop net url temp_path destination retries (attempt_no + 1) w'')))"
  by pat_completeness auto
termination
  by (relation "measure (\<lambda>(net, url, temp_path, destination, retries, attempt_no, w).
                  nat (retries + 1 - attempt_no))") auto

declare download_loop.simps [simp del]

definition download_image ::
  "(nat \<Rightarrow> attempt) \<Rightarrow> string \<Rightarrow> path \<Rightarrow> int \<Rightarrow> world \<Rightarrow> py_error option \<times> world" where
  "download_image net url destination retries w =
     download_loop net url (destination @ ''.part'') destination retries 1 w"

section \<open>Saving the name cache\<close>

text \<open>
  \<^verbatim>\<open>json.dumps(payload, ensure_ascii=False, indent=2)\<close> for a dictionary of strings:
  quotes, backslashes and control characters are escaped, each item is on a line of its
  own, indented by two spaces, and the empty dictionary is \<^verbatim>\<open>{}\<close>.
\<close>

definition hex_digit :: "nat \<Rightarrow> char" where
  "hex_digit d = (if d < 10 then char_of (48 + d) else char_of (87 + d))"

definition json_escape :: "char \<Rightarrow> string" where
  "json_escape c =
     (let n = (of_char c :: nat)
      in if c = CHR 0x22 then [CHR 0x5C, CHR 0x22]
         else if c = CHR 0x5C then [CHR 0x5C, CHR 0x5C]
         else if n = 8 then [CHR 0x5C, CHR ''b'']
         else if n = 12 then [CHR 0x5C, CHR ''f'']
         else if n = 10 then [CHR 0x5C, CHR ''n'']
         else if n = 13 then [CHR 0x5C, CHR ''r'']
         else if n = 9 then [CHR 0x5C, CHR ''t'']
         else if n < 32 then [CHR 0x5C, CHR ''u'', CHR ''0'', CHR ''0'',
                               hex_digit (n div 16), hex_digit (n mod 16)]
         else [c])"

definition json_string :: "string \<Rightarrow> string" where
  "json_string s = [CHR 0x22] @ concat (map json_escape s) @ [CHR 0x22]"

fun join :: "string \<Rightarrow> string list \<Rightarrow> string" where
  "join sep [] = []"
| "join sep [x] = x"
| "join sep (x # y # ys) = x @ sep @ join sep (y # ys)"

definition json_dumps :: "(string \<times> string) list \<Rightarrow> string" where
  "json_dumps payload =
     (if payload = [] then ''{}''
      else ''{'' @ [CHR 0x0A] @
           join ('','' @ [CHR 0x0A])
                (map (\<lambda>(k, v). ''  '' @ json_string k @ '': '' @ json_string v) payload)
           @ [CHR 0x0A] @ ''}'')"

text \<open>\<^verbatim>\<open>Path.write_text\<close> opens the file for writing, which truncates it, and then writes.\<close>

definition write_text :: "path \<Rightarrow> string \<Rightarrow> world \<Rightarrow> world" where
  "write_text p content w = do_op (Write p content) (do_op (OpenW p) w)"

definition save_json :: "path \<Rightarrow> (string \<times> string) list \<Rightarrow> world \<Rightarrow> world" where
  "save_json p payload w = write_text p (json_dumps payload) w"

section \<open>The cache reconciler\<close>

definition IMAGE_CACHE_PATH :: path where
  "IMAGE_CACHE_PATH = ''cache/image_cache.json''"

text \<open>\<^verbatim>\<open>ASSETS_DIR / name\<close>, for a name that is a single path component.\<close>

definition assets_path :: "string \<Rightarrow> path" where
  "assets_path name = ''assets/'' @ name"

record poster =
  title :: string
  images :: "string list"

record env =
  urlparse_path :: "string \<Rightarrow> py_error + string"
  net :: "nat \<Rightarrow> attempt"

record state =
  image_cache :: "(string \<times> string) list"
  url_to_filename :: "(string \<times> string) list"
  reserved_names :: "string fset"
  downloaded :: nat
  skipped :: nat
  renamed :: nat
  world :: world

text \<open>
  A run that raises carries the exception and the world it leaves behind; the variables
  of \<^verbatim>\<open>main\<close> are lost with it.
\<close>

type_synonym outcome = "py_error \<times> world + state"

text \<open>\<^verbatim>\<open>del d[key]\<close> raises \<^verbatim>\<open>KeyError\<close> for a key that is not in the dictionary.\<close>

definition py_del :: "string \<Rightarrow> (string \<times> string) list \<Rightarrow> py_error + (string \<times> string) list" where
  "py_del key d = (if map_of d key = None then Inl (KeyError key) else Inr (AList.delete key d))"

text \<open>\<^verbatim>\<open>set(d.keys())\<close>\<close>

definition keys_of :: "(string \<times> string) list \<Rightarrow> string fset" where
  "keys_of d = fset_of_list (map fst d)"

definition init_state :: "(string \<times> string) list \<Rightarrow> world \<Rightarrow> state" where
  "init_state cache w =
     \<lparr>image_cache = cache,
      url_to_filename = fold (\<lambda>(name, url) d. AList.update url name d) cache [],
      reserved_names = keys_of cache,
      downloaded = 0, skipped = 0, renamed = 0,
      world = w\<rparr>"

text \<open>Lines 173 to 184: the fetch, and the bookkeeping when it succeeds.\<close>

definition fetch :: "env \<Rightarrow> string \<Rightarrow> string \<Rightarrow> state \<Rightarrow> state" where
  "fetch e url target_filename s =
     (case download_image (net e) url (assets_path target_filename) 3 (world s) of
        (Some exc, w) \<Rightarrow> s\<lparr>world := w\<rparr>
      | (None, w) \<Rightarrow>
          s\<lparr>image_cache := AList.update target_filename url (image_cache s),
            url_to_filename := AList.update url target_filename (url_to_filename s),
            reserved_names := finsert target_filename (reserved_names s),
            downloaded := downloaded s + 1,
            world := w\<rparr>)"

text \<open>Lines 153 to 171: the same URL cached under another name.\<close>

definition migrate :: "env \<Rightarrow> string \<Rightarrow> string \<Rightarrow> string \<Rightarrow> state \<Rightarrow> outcome" where
  "migrate e url target_filename existing_name s =
     (if path_exists (world s) (assets_path existing_name)
      then (let w = do_op (Rename (assets_path existing_name) (assets_path target_filename)) (world s)
            in case py_del existing_name (image_cache s) of
                 Inl exc \<Rightarrow> Inl (exc, w)
               | Inr cache \<Rightarrow>
                   Inr (s\<lparr>image_cache := AList.update target_filename url cache,
                          url_to_filename := AList.update url target_filename (url_to_filename s),
                          reserved_names := finsert target_filename (reserved_names s |-| {|existing_name|}),
                          renamed := renamed s + 1,
                          world := w\<rparr>))
      else (case py_del existing_name (image_cache s) of
              Inl exc \<Rightarrow> Inl (exc, world s)
            | Inr cache \<Rightarrow>
                Inr (fetch e url target_filename
                       (s\<lparr>image_cache := cache,
                          reserved_names := reserved_names s |-| {|existing_name|}\<rparr>))))"

text \<open>Lines 144 to 184: skip, rename or fetch, once the target name is resolved.\<close>

definition reconcile :: "env \<Rightarrow> string \<Rightarrow> string \<Rightarrow> state \<Rightarrow> outcome" where
  "reconcile e url target_filename s =
     (if map_of (image_cache s) target_filename = Some url
         \<and> path_exists (world s) (assets_path target_filename)
      then Inr (s\<lparr>skipped := skipped s + 1\<rparr>)
      else (case map_of (url_to_filename s) url of
              None \<Rightarrow> Inr (fetch e url target_filename s)
            | Some existing_name \<Rightarrow>
                if existing_name \<noteq> [] \<and> existing_name \<noteq> target_filename
                then migrate e url target_filename existing_name s
                else Inr (fetch e url target_filename s)))"

text \<open>The body of the inner loop for one image URL at position \<open>idx\<close>.\<close>

definition process_url :: "env \<Rightarrow> string \<Rightarrow> int \<Rightarrow> int \<Rightarrow> string \<Rightarrow> state \<Rightarrow> outcome" where
  "process_url e ttl idx total_n url s =
     (if url = [] then Inr s
      else case filename_from_title (urlparse_path e) ttl url idx total_n of
             Inl exc \<Rightarrow> Inl (exc, world s)
           | Inr (base, ext) \<Rightarrow>
               reconcile e url
                 (choose_filename base ext url (image_cache s) (reserved_names s)) s)"

fun process_images :: "env \<Rightarrow> string \<Rightarrow> int \<Rightarrow> int \<Rightarrow> string list \<Rightarrow> state \<Rightarrow> outcome" where
  "process_images e ttl total_n idx [] s = Inr s"
| "process_images e ttl total_n idx (url # rest) s =
     (case process_url e ttl idx total_n url s of
        Inl err \<Rightarrow> Inl err
      | Inr s' \<Rightarrow> process_images e ttl total_n (idx + 1) rest s')"

fun process_posters :: "env \<Rightarrow> poster list \<Rightarrow> state \<Rightarrow> outcome" where
  "process_posters e [] s = Inr s"
| "process_posters e (p # ps) s =
     (case process_images e (title p) (int (length (images p))) 0 (images p) s of
        Inl err \<Rightarrow> Inl err
      | Inr s' \<Rightarrow> process_posters e ps s')"

text \<open>
  The run: the manifest is \<open>None\<close> when the meta cache file is missing, and
  \<open>cache\<close> is what \<^verbatim>\<open>load_json\<close> returned for the name cache file.
\<close>

definition main :: "env \<Rightarrow> poster list option \<Rightarrow> (string \<times> string) list \<Rightarrow> world \<Rightarrow> outcome" where
  "main e manifest cache w =
     (case manifest of
        None \<Rightarrow> Inl (FileNotFoundError, w)
      | Some posters \<Rightarrow>
          (case process_posters e posters (init_state cache w) of
             Inl err \<Rightarrow> Inl err
           | Inr s \<Rightarrow> Inr (s\<lparr>world := save_json IMAGE_CACHE_PATH (image_cache s) (world s)\<rparr>)))"

section \<open>Notions used to state the properties\<close>

text \<open>
  The file system after a successful fetch: some answer of the network was a complete
  response, its chunks are the content of the destination, and the temporary file is gone.
\<close>

definition fetched :: "(nat \<Rightarrow> attempt) \<Rightarrow> fs \<Rightarrow> path \<Rightarrow> path \<Rightarrow> fs \<Rightarrow> bool" where
  "fetched answers f temp destination f' =
     (\<exists>status chunks k. answers k = Response status chunks False
        \<and> f' = (f(destination \<mapsto> concat chunks))(temp := None))"

subsection \<open>The loop as a sequence of steps\<close>

text \<open>
  The two nested loops of \<^verbatim>\<open>main\<close> visit the (poster, URL) pairs in manifest order; a
  job is one such pair with its title, position and image count.
\<close>

type_synonym job = "string \<times> int \<times> int \<times> string"

fun jobs_of_images :: "string \<Rightarrow> int \<Rightarrow> int \<Rightarrow> string list \<Rightarrow> job list" where
  "jobs_of_images ttl total_n idx [] = []"
| "jobs_of_images ttl total_n idx (url # rest) =
     (ttl, idx, total_n, url) # jobs_of_images ttl total_n (idx + 1) rest"

definition jobs_of :: "poster list \<Rightarrow> job list" where
  "jobs_of posters =
     concat (map (\<lambda>p. jobs_of_images (title p) (int (length (images p))) 0 (images p)) posters)"

fun run_jobs :: "env \<Rightarrow> job list \<Rightarrow> state \<Rightarrow> outcome" where
  "run_jobs e [] s = Inr s"
| "run_jobs e ((ttl, idx, total_n, url) # rest) s =
     (case process_url e ttl idx total_n url s of
        Inl err \<Rightarrow> Inl err
      | Inr s' \<Rightarrow> run_jobs e rest s')"

text \<open>The name cache and the reserved names hold the same names.\<close>

definition agree :: "state \<Rightarrow> bool" where
  "agree s = (reserved_names s = keys_of (image_cache s))"

text \<open>
  From one world to a later one, nothing happened to the file at \<open>p\<close>: the events in
  between do not touch it and its content is the same.
\<close>

definition quiet :: "path \<Rightarrow> world \<Rightarrow> world \<Rightarrow> bool" where
  "quiet p w w' =
     (\<exists>evs. trace w' = trace w @ evs \<and> filter (touches p) evs = [] \<and> files w' p = files w p)"

text \<open>The world a run ends in, whether it completed or raised.\<close>

definition final_world :: "outcome \<Rightarrow> world" where
  "final_world r = (case r of Inl (exc, w) \<Rightarrow> w | Inr s \<Rightarrow> world s)"

definition raised :: "outcome \<Rightarrow> py_error option" where
  "raised r = (case r of Inl (exc, w) \<Rightarrow> Some exc | Inr s \<Rightarrow> None)"

text \<open>
  The filename the resolver returns for a (poster, URL) pair in a given state
  (line 142), when the URL can be parsed.
\<close>

definition resolved_name :: "env \<Rightarrow> string \<Rightarrow> int \<Rightarrow> int \<Rightarrow> string \<Rightarrow> state \<Rightarrow> string option" where
  "resolved_name e ttl idx total_n url s =
     (case filename_from_title (urlparse_path e) ttl url idx total_n of
        Inl exc \<Rightarrow> None
      | Inr (base, ext) \<Rightarrow>
          Some (choose_filename base ext url (image_cache s) (reserved_names s)))"

text \<open>
  A job is satisfied in a state when its URL is empty or the name resolved for it is
  cached for that URL and the asset file of that name exists.
\<close>

definition satisfied :: "env \<Rightarrow> state \<Rightarrow> job \<Rightarrow> bool" where
  "satisfied e s j =
     (case j of (ttl, idx, total_n, url) \<Rightarrow>
        url = [] \<or>
        (case resolved_name e ttl idx total_n url s of
           None \<Rightarrow> False
         | Some name \<Rightarrow> map_of (image_cache s) name = Some url
                         \<and> path_exists (world s) (assets_path name)))"

definition nonempty_url :: "job \<Rightarrow> bool" where
  "nonempty_url j = (case j of (ttl, idx, total_n, url) \<Rightarrow> url \<noteq> [])"

text \<open>The name cache is a dictionary: no key occurs twice.\<close>

definition keyed :: "state \<Rightarrow> bool" where
  "keyed s = distinct (map fst (image_cache s))"

subsection \<open>Concrete environments and inputs\<close>


definition flaky :: "nat \<Rightarrow> attempt" where
  "flaky k = (if k = 0 then Response 200 [''ab''] True else Response 200 [''xy'', [], ''z''] False)"

definition old_world :: world where
  "old_world = \<lparr>files = [''assets/a.jpg'' \<mapsto> ''old''], trace = []\<rparr>"

definition always_ok :: "nat \<Rightarrow> attempt" where
  "always_ok k = Response 200 [''img''] False"

definition always_down :: "nat \<Rightarrow> attempt" where
  "always_down k = TransportError"

definition ok_env :: env where
  "ok_env = \<lparr>urlparse_path = plain_url_path, net = always_ok\<rparr>"

definition down_env :: env where
  "down_env = \<lparr>urlparse_path = plain_url_path, net = always_down\<rparr>"

definition empty_world :: world where
  "empty_world = \<lparr>files = Map.empty, trace = []\<rparr>"

definition dup_posters :: "poster list" where
  "dup_posters = [\<lparr>title = ''Dup'', images = [''http://x/a.jpg'']\<rparr>,
                  \<lparr>title = ''Dup'', images = [''http://x/b.jpg'']\<rparr>]"

definition twice_posters :: "poster list" where
  "twice_posters = [\<lparr>title = ''T1'', images = [''http://x/a.jpg'']\<rparr>,
                    \<lparr>title = ''T2'', images = [''http://x/a.jpg'']\<rparr>]"

definition stale_cache :: "(string \<times> string) list" where
  "stale_cache = [(''Old.jpg'', ''http://x/a.jpg'')]"

definition stale_posters :: "poster list" where
  "stale_posters = [\<lparr>title = ''New'', images = [''http://x/a.jpg'']\<rparr>,
                    \<lparr>title = ''Other'', images = [''http://x/a.jpg'']\<rparr>]"

definition saved_world :: world where
  "saved_world = \<lparr>files = [IMAGE_CACHE_PATH \<mapsto> json_dumps stale_cache], trace = []\<rparr>"

definition warm_cache :: "(string \<times> string) list" where
  "warm_cache = [(''Dup.jpg'', ''http://x/a.jpg''), (''Dup_2.jpg'', ''http://x/b.jpg'')]"

definition warm_world :: world where
  "warm_world = \<lparr>files = [''assets/Dup.jpg'' \<mapsto> ''img'', ''assets/Dup_2.jpg'' \<mapsto> ''img''],
                  trace = []\<rparr>"

section \<open>The resolver ends on an unclaimed name\<close>

lemma tried_neq_first: "numbered base ext k \<noteq> base @ ext"
proof
  assume "numbered base ext k = base @ ext"
  then have "length (numbered base ext k) = length (base @ ext)" by simp
  then show False by (simp add: numbered_def)
qed

lemma tried_inj: "tried base ext i = tried base ext j \<Longrightarrow> i = j"
proof (cases i; cases j)
  fix a b assume "i = Suc a" "j = Suc b" "tried base ext i = tried base ext j"
  then show "i = j" by (auto dest: numbered_inj)
qed (auto simp: tried_neq_first tried_neq_first[symmetric])

lemma choose_loop_tried:
  "candidate = tried base ext j \<Longrightarrow> counter = j + 2 \<Longrightarrow>
   \<exists>m\<ge>j. choose_loop base ext url cache reserved candidate counter = tried base ext m
        \<and> (\<forall>i. j \<le> i \<and> i < m \<longrightarrow> tried base ext i \<in> claimed cache reserved)
        \<and> \<not> conflict_cache (tried base ext m) url cache
        \<and> \<not> conflict_reserved (tried base ext m) cache reserved"
proof (induction base ext url cache reserved candidate counter arbitrary: j
       rule: choose_loop.induct)
  case (1 base ext url cache reserved candidate counter)
  show ?case
  proof (cases "conflict_cache candidate url cache
                \<or> conflict_reserved candidate cache reserved")
    case False
    then have "choose_loop base ext url cache reserved candidate counter = candidate"
      by (subst choose_loop.simps) simp
    with False "1.prems" show ?thesis by (intro exI[of _ j]) auto
  next
    case True
    have next_c: "numbered base ext counter = tried base ext (Suc j)"
      using "1.prems" by simp
    from "1.IH"[OF True next_c] "1.prems"
    obtain m where m: "Suc j \<le> m"
      "choose_loop base ext url cache reserved (numbered base ext counter) (counter + 1)
         = tried base ext m"
      "\<forall>i. Suc j \<le> i \<and> i < m \<longrightarrow> tried base ext i \<in> claimed cache reserved"
      "\<not> conflict_cache (tried base ext m) url cache"
      "\<not> conflict_reserved (tried base ext m) cache reserved"
      by auto
    have here: "tried base ext j \<in> claimed cache reserved"
      using True "1.prems" conflict_claimed by blast
    have all: "\<forall>i. j \<le> i \<and> i < m \<longrightarrow> tried base ext i \<in> claimed cache reserved"
    proof (intro allI impI)
      fix i assume "j \<le> i \<and> i < m"
      then consider "i = j" | "Suc j \<le> i \<and> i < m" by linarith
      then show "tried base ext i \<in> claimed cache reserved"
        using here m(3) by cases auto
    qed
    have "choose_loop base ext url cache reserved candidate counter = tried base ext m"
      using True m(2) by (subst choose_loop.simps) simp
    with m all show ?thesis by (intro exI[of _ m]) auto
  qed
qed

lemma tried_bound:
  assumes "\<forall>i<m. tried base ext i \<in> claimed cache reserved"
  shows "m \<le> card (claimed cache reserved)"
proof -
  have "inj_on (tried base ext) {..<m}" by (auto simp: inj_on_def dest: tried_inj)
  then have "card (tried base ext ` {..<m}) = m" by (simp add: card_image)
  moreover have "tried base ext ` {..<m} \<subseteq> claimed cache reserved" using assms by auto
  ultimately show ?thesis by (metis card_mono finite_claimed)
qed

text \<open>
  Claim C10. For every base, extension, URL, cache and reserved set, the resolver's loop
  ends: it returns the candidate it tries after \<open>m\<close> rounds, where \<open>m\<close> is at most the
  number of names in the cache or the reserved set, and that candidate is neither bound
  in the cache to another URL nor reserved while absent from the cache.
\<close>

theorem choose_filename_terminates_unclaimed:
  "\<exists>m. m \<le> card (claimed cache reserved)
      \<and> choose_filename base ext url cache reserved = tried base ext m
      \<and> \<not> conflict_cache (choose_filename base ext url cache reserved) url cache
      \<and> \<not> conflict_reserved (choose_filename base ext url cache reserved) cache reserved"
proof -
  obtain m where m:
    "choose_loop base ext url cache reserved (base @ ext) 2 = tried base ext m"
    "\<forall>i. 0 \<le> i \<and> i < m \<longrightarrow> tried base ext i \<in> claimed cache reserved"
    "\<not> conflict_cache (tried base ext m) url cache"
    "\<not> conflict_reserved (tried base ext m) cache reserved"
    using choose_loop_tried[of "base @ ext" base ext 0 2 url cache reserved] by auto
  from m(2) have "m \<le> card (claimed cache reserved)" by (intro tried_bound) simp
  with m show ?thesis unfolding choose_filename_def by (intro exI[of _ m]) simp
qed

section \<open>The fetcher's effect on the file system\<close>


lemma files_do_op [simp]: "files (do_op opn w) = apply_op opn (files w)"
  by (simp add: do_op_def)

lemma trace_do_op [simp]: "trace (do_op opn w) = trace w @ [Fs opn]"
  by (simp add: do_op_def)

lemma trace_do_ops: "trace (do_ops ops w) = trace w @ map Fs ops"
  unfolding do_ops_def by (induction ops arbitrary: w) auto

lemma files_do_ops: "files (do_ops ops w) = fold apply_op ops (files w)"
  unfolding do_ops_def by (induction ops arbitrary: w) auto

lemma fold_writes:
  "f p = Some d \<Longrightarrow> fold apply_op (map (Write p) cs) f = f(p \<mapsto> d @ concat cs)"
  by (induction cs arbitrary: f d) (auto simp: fun_upd_idem)

lemma concat_nonempty: "concat (filter (\<lambda>chunk. chunk \<noteq> []) cs) = concat cs"
  by (induction cs) auto

lemma part_neq [simp]: "d @ ''.part'' \<noteq> d" "d \<noteq> d @ ''.part''"
  by (auto dest: arg_cong[where f = length])

lemma untouched_writes:
  "p \<noteq> q \<Longrightarrow> filter (touches q) (map Fs (map (Write p) cs)) = []"
  by (induction cs) auto

text \<open>One attempt that succeeds.\<close>

lemma try_fetch_ok:
  assumes "try_fetch answer url temp destination w = (None, w')" and "temp \<noteq> destination"
  shows "\<exists>status chunks evs. answer = Response status chunks False
           \<and> files w' = ((files w)(destination \<mapsto> concat chunks))(temp := None)
           \<and> trace w' = trace w @ evs
           \<and> filter (touches destination) evs = [Fs (Replace temp destination)]
           \<and> length (filter is_get evs) = 1"
proof (cases answer)
  case TransportError
  with assms show ?thesis by (simp add: try_fetch_def)
next
  case (Response status chunks broken)
  with assms(1) have ok: "raise_for_status status = None" and nb: "\<not> broken"
    by (auto simp: try_fetch_def Let_def split: option.splits if_splits)
  let ?cs = "filter (\<lambda>chunk. chunk \<noteq> []) chunks"
  let ?evs = "Get url # Fs (OpenW temp) # map Fs (map (Write temp) ?cs) @ [Fs (Replace temp destination)]"
  from assms(1) Response ok nb have w': "w' = do_op (Replace temp destination)
      (do_ops (map (Write temp) ?cs) (do_op (OpenW temp) (w\<lparr>trace := trace w @ [Get url]\<rparr>)))"
    by (simp add: try_fetch_def Let_def)
  have "files w' = ((files w)(destination \<mapsto> concat chunks))(temp := None)"
    using assms(2) by (auto simp: w' files_do_ops fold_writes[where d = "[]"] concat_nonempty)
  moreover have "trace w' = trace w @ ?evs"
    by (simp add: w' trace_do_ops)
  moreover have "filter (touches destination) ?evs = [Fs (Replace temp destination)]"
    using assms(2) by (simp add: untouched_writes)
  moreover have "length (filter is_get ?evs) = 1"
    by (simp add: filter_map comp_def)
  ultimately show ?thesis using Response nb by blast
qed

text \<open>One attempt that raises, followed by the clean-up of the handler.\<close>

lemma try_fetch_raises:
  assumes "try_fetch answer url temp destination w = (Some exc, w')" and "temp \<noteq> destination"
  shows "\<exists>evs. files (do_op (Unlink temp) w') = (files w)(temp := None)
           \<and> trace (do_op (Unlink temp) w') = trace w @ evs
           \<and> filter (touches destination) evs = []
           \<and> length (filter is_get evs) = 1"
proof (cases answer)
  case TransportError
  with assms show ?thesis by (auto simp: try_fetch_def)
next
  case (Response status chunks broken)
  show ?thesis
  proof (cases "raise_for_status status")
    case (Some e)
    with assms Response show ?thesis by (auto simp: try_fetch_def)
  next
    case None
    let ?cs = "filter (\<lambda>chunk. chunk \<noteq> []) chunks"
    let ?evs = "Get url # Fs (OpenW temp) # map Fs (map (Write temp) ?cs) @ [Fs (Unlink temp)]"
    from assms(1) Response None have w': "w' =
        do_ops (map (Write temp) ?cs) (do_op (OpenW temp) (w\<lparr>trace := trace w @ [Get url]\<rparr>))"
      by (auto simp: try_fetch_def Let_def split: if_splits)
    have "files (do_op (Unlink temp) w') = (files w)(temp := None)"
      by (simp add: w' files_do_ops fold_writes[where d = "[]"])
    moreover have "trace (do_op (Unlink temp) w') = trace w @ ?evs"
      by (simp add: w' trace_do_ops)
    moreover have "filter (touches destination) ?evs = []"
      using assms(2) by (simp add: untouched_writes)
    moreover have "length (filter is_get ?evs) = 1"
      by (simp add: filter_map comp_def)
    ultimately show ?thesis by blast
  qed
qed


lemma fetched_after_cleanup:
  "temp \<noteq> destination \<Longrightarrow> fetched answers (f(temp := None)) temp destination f'
     \<Longrightarrow> fetched answers f temp destination f'"
  unfolding fetched_def by (metis fun_upd_twist fun_upd_upd)

lemma download_loop_frame:
  "attempt_no \<le> retries \<Longrightarrow> temp \<noteq> destination \<Longrightarrow>
   download_loop answers url temp destination retries attempt_no w = (r, w') \<Longrightarrow>
   \<exists>evs. trace w' = trace w @ evs \<and>
     (case r of
        None \<Rightarrow> fetched answers (files w) temp destination (files w')
                 \<and> filter (touches destination) evs = [Fs (Replace temp destination)]
                 \<and> length (filter is_get evs) \<le> nat (retries - attempt_no + 1)
      | Some exc \<Rightarrow> files w' = (files w)(temp := None)
                 \<and> filter (touches destination) evs = []
                 \<and> length (filter is_get evs) = nat (retries - attempt_no + 1))"
proof (induction answers url temp destination retries attempt_no w arbitrary: r w'
       rule: download_loop.induct)
  case (1 answers url temp destination retries attempt_no w)
  obtain r1 w1 where t: "try_fetch (answers (gets w)) url temp destination w = (r1, w1)"
    by (cases "try_fetch (answers (gets w)) url temp destination w")
  note run = "1.prems"(3)[unfolded download_loop.simps[of answers url temp destination retries attempt_no w]]
  show ?case
  proof (cases r1)
    case None
    with t run "1.prems"(1) have res: "r = None" "w' = w1"
      by auto
    from try_fetch_ok[OF t[unfolded None] "1.prems"(2)]
    obtain status chunks evs where
      "answers (gets w) = Response status chunks False"
      "files w1 = ((files w)(destination \<mapsto> concat chunks))(temp := None)"
      "trace w1 = trace w @ evs"
      "filter (touches destination) evs = [Fs (Replace temp destination)]"
      "length (filter is_get evs) = 1"
      by blast
    then show ?thesis using res "1.prems"(1)
      by (intro exI[of _ evs]) (auto simp: fetched_def)
  next
    case (Some exc)
    let ?w2 = "do_op (Unlink temp) w1"
    from try_fetch_raises[OF t[unfolded Some] "1.prems"(2)]
    obtain evs where evs:
      "files ?w2 = (files w)(temp := None)"
      "trace ?w2 = trace w @ evs"
      "filter (touches destination) evs = []"
      "length (filter is_get evs) = 1"
      by blast
    show ?thesis
    proof (cases "attempt_no = retries")
      case True
      with t Some run "1.prems"(1) have res: "r = Some exc" "w' = ?w2"
        by (auto simp: Let_def)
      show ?thesis using evs res True by (intro exI[of _ evs]) auto
    next
      case False
      with t Some run "1.prems"(1) have rec:
        "download_loop answers url temp destination retries (attempt_no + 1) ?w2 = (r, w')"
        by (auto simp: Let_def)
      have le: "attempt_no + 1 \<le> retries" using False "1.prems"(1) by simp
      have nle: "\<not> retries < attempt_no" using "1.prems"(1) by simp
      from "1.IH"[OF nle t[symmetric] Some refl False le "1.prems"(2) rec]
      obtain evs' where evs':
        "trace w' = trace ?w2 @ evs'"
        "case r of
           None \<Rightarrow> fetched answers (files ?w2) temp destination (files w')
                    \<and> filter (touches destination) evs' = [Fs (Replace temp destination)]
                    \<and> length (filter is_get evs') \<le> nat (retries - (attempt_no + 1) + 1)
         | Some exc \<Rightarrow> files w' = (files ?w2)(temp := None)
                    \<and> filter (touches destination) evs' = []
                    \<and> length (filter is_get evs') = nat (retries - (attempt_no + 1) + 1)"
        by blast
      have tr: "trace w' = trace w @ (evs @ evs')" using evs(2) evs'(1) by simp
      show ?thesis
      proof (cases r)
        case None
        with evs'(2) evs "1.prems"(2) le show ?thesis
          by (intro exI[of _ "evs @ evs'"]) (auto simp: tr intro: fetched_after_cleanup)
      next
        case (Some e)
        with evs'(2) evs le show ?thesis
          by (intro exI[of _ "evs @ evs'"]) (auto simp: tr)
      qed
    qed
  qed
qed

lemmas eval_fetch = download_image_def download_loop.simps try_fetch_def raise_for_status_def
  do_op_def do_ops_def gets_def Let_def

text \<open>
  Claim C2. A call of \<^verbatim>\<open>download_image\<close> with a positive number of attempts either
  succeeds, and then the destination holds the complete body of one response, the
  temporary file is gone, every other path is as before, and the only event of the call
  that touches the destination is the one \<^verbatim>\<open>replace\<close> of the temporary file onto it;
  or it raises, and then the destination is as it was before the call (no event of the
  call touches it), the temporary file does not exist, and every other path is as before.
\<close>

theorem download_image_frame:
  "0 < retries \<Longrightarrow>
   (case download_image answers url destination retries w of
      (None, w') \<Rightarrow>
         fetched answers (files w) (destination @ ''.part'') destination (files w')
         \<and> (\<exists>evs. trace w' = trace w @ evs
               \<and> filter (touches destination) evs
                   = [Fs (Replace (destination @ ''.part'') destination)])
    | (Some exc, w') \<Rightarrow>
         files w' = (files w)(destination @ ''.part'' := None)
         \<and> files w' destination = files w destination
         \<and> files w' (destination @ ''.part'') = None
         \<and> (\<exists>evs. trace w' = trace w @ evs \<and> filter (touches destination) evs = []))"
proof -
  assume pos: "0 < retries"
  obtain r w' where res: "download_image answers url destination retries w = (r, w')"
    by (cases "download_image answers url destination retries w")
  have le: "1 \<le> retries" using pos by simp
  from download_loop_frame[OF le part_neq(1) res[unfolded download_image_def]]
  obtain evs where evs: "trace w' = trace w @ evs"
    "case r of
       None \<Rightarrow> fetched answers (files w) (destination @ ''.part'') destination (files w')
                \<and> filter (touches destination) evs = [Fs (Replace (destination @ ''.part'') destination)]
                \<and> length (filter is_get evs) \<le> nat (retries - 1 + 1)
     | Some exc \<Rightarrow> files w' = (files w)(destination @ ''.part'' := None)
                \<and> filter (touches destination) evs = []
                \<and> length (filter is_get evs) = nat (retries - 1 + 1)"
    by blast
  show ?thesis
  proof (cases r)
    case None
    with evs show ?thesis by (auto simp: res)
  next
    case (Some exc)
    with evs show ?thesis by (auto simp: res)
  qed
qed

lemma flaky_run:
  "download_image flaky ''http://x/a.jpg'' ''assets/a.jpg'' 3 old_world =
     (None, \<lparr>files = [''assets/a.jpg'' \<mapsto> ''xyz''],
             trace = [Get ''http://x/a.jpg'', Fs (OpenW ''assets/a.jpg.part''),
                      Fs (Write ''assets/a.jpg.part'' ''ab''), Fs (Unlink ''assets/a.jpg.part''),
                      Get ''http://x/a.jpg'', Fs (OpenW ''assets/a.jpg.part''),
                      Fs (Write ''assets/a.jpg.part'' ''xy''), Fs (Write ''assets/a.jpg.part'' ''z''),
                      Fs (Replace ''assets/a.jpg.part'' ''assets/a.jpg'')]\<rparr>)"
  by (simp add: eval_fetch flaky_def old_world_def fun_upd_twist)

theorem download_image_frame_witness:
  "0 < (3::int)
   \<and> fst (download_image flaky ''http://x/a.jpg'' ''assets/a.jpg'' 3 old_world) = None
   \<and> fetched flaky (files old_world) ''assets/a.jpg.part'' ''assets/a.jpg''
        (files (snd (download_image flaky ''http://x/a.jpg'' ''assets/a.jpg'' 3 old_world)))"
  using download_image_frame[where retries = 3 and answers = flaky and url = "''http://x/a.jpg''"
          and destination = "''assets/a.jpg''" and w = old_world]
  by (simp add: flaky_run)




section \<open>The loop, step by step\<close>


lemma run_jobs_append:
  "run_jobs e (js @ ks) s =
     (case run_jobs e js s of Inl err \<Rightarrow> Inl err | Inr s' \<Rightarrow> run_jobs e ks s')"
  by (induction js arbitrary: s) (auto split: sum.splits)

lemma process_images_jobs:
  "process_images e ttl total_n idx urls s = run_jobs e (jobs_of_images ttl total_n idx urls) s"
  by (induction urls arbitrary: idx s) (auto split: sum.splits)

lemma process_posters_jobs: "process_posters e posters s = run_jobs e (jobs_of posters) s"
  by (induction posters arbitrary: s)
     (auto simp: jobs_of_def run_jobs_append process_images_jobs split: sum.splits)

text \<open>An invariant of every step is an invariant of every prefix of the run.\<close>

lemma run_jobs_invariant:
  assumes step: "\<And>ttl idx total_n url s s'.
      P s \<Longrightarrow> process_url e ttl idx total_n url s = Inr s' \<Longrightarrow> P s'"
    and init: "P s" and run: "run_jobs e js s = Inr s'"
  shows "P s'"
  using init run
proof (induction js arbitrary: s)
  case Nil
  then show ?case by simp
next
  case (Cons j js)
  obtain ttl idx total_n url where j: "j = (ttl, idx, total_n, url)" by (cases j)
  from Cons.prems(2) obtain s1 where s1: "process_url e ttl idx total_n url s = Inr s1"
    and rest: "run_jobs e js s1 = Inr s'"
    by (auto simp: j split: sum.splits)
  from step[OF Cons.prems(1) s1] have "P s1" .
  from Cons.IH[OF this rest] show ?case .
qed

lemma keys_update: "keys_of (AList.update k v al) = finsert k (keys_of al)"
proof -
  have "fset (keys_of (AList.update k v al)) = fset (finsert k (keys_of al))"
    by (simp add: keys_of_def fset_of_list.rep_eq dom_update)
  then show ?thesis by (simp only: fset_inject)
qed

lemma keys_delete: "keys_of (AList.delete k al) = keys_of al |-| {|k|}"
proof -
  have "fset (keys_of (AList.delete k al)) = fset (keys_of al |-| {|k|})"
    by (simp add: keys_of_def fset_of_list.rep_eq delete_keys)
  then show ?thesis by (simp only: fset_inject)
qed

lemma agree_init: "agree (init_state cache w)"
  by (simp add: agree_def init_state_def)

lemma agree_fetch: "agree s \<Longrightarrow> agree (fetch e url target s)"
  by (simp add: agree_def fetch_def keys_update split: prod.splits option.splits)

lemma agree_migrate: "agree s \<Longrightarrow> migrate e url target existing s = Inr s' \<Longrightarrow> agree s'"
proof -
  assume a: "agree s" and m: "migrate e url target existing s = Inr s'"
  show ?thesis
  proof (cases "path_exists (world s) (assets_path existing)")
    case True
    with m a show ?thesis
      by (auto simp: migrate_def py_del_def Let_def agree_def keys_update keys_delete
               split: if_splits)
  next
    case False
    let ?s1 = "s\<lparr>image_cache := AList.delete existing (image_cache s),
                  reserved_names := reserved_names s |-| {|existing|}\<rparr>"
    from False m have s': "s' = fetch e url target ?s1"
      by (auto simp: migrate_def py_del_def split: if_splits)
    have "agree ?s1" using a by (simp add: agree_def keys_delete)
    then show ?thesis unfolding s' by (rule agree_fetch)
  qed
qed

lemma reconcile_cases:
  obtains (skip) "map_of (image_cache s) t = Some url" "path_exists (world s) (assets_path t)"
            "reconcile e url t s = Inr (s\<lparr>skipped := skipped s + 1\<rparr>)"
  | (fetch) "\<not> (map_of (image_cache s) t = Some url \<and> path_exists (world s) (assets_path t))"
            "map_of (url_to_filename s) url \<in> {None, Some [], Some t}"
            "reconcile e url t s = Inr (fetch e url t s)"
  | (migrate) existing where
            "\<not> (map_of (image_cache s) t = Some url \<and> path_exists (world s) (assets_path t))"
            "map_of (url_to_filename s) url = Some existing" "existing \<noteq> []" "existing \<noteq> t"
            "reconcile e url t s = migrate e url t existing s"
proof (cases "map_of (image_cache s) t = Some url \<and> path_exists (world s) (assets_path t)")
  case True
  then have "reconcile e url t s = Inr (s\<lparr>skipped := skipped s + 1\<rparr>)"
    unfolding reconcile_def by (rule if_P)
  with True skip show ?thesis by blast
next
  case noskip: False
  then have r: "reconcile e url t s =
      (case map_of (url_to_filename s) url of
         None \<Rightarrow> Inr (fetch e url t s)
       | Some existing_name \<Rightarrow>
           if existing_name \<noteq> [] \<and> existing_name \<noteq> t
           then migrate e url t existing_name s
           else Inr (fetch e url t s))"
    unfolding reconcile_def by (rule if_not_P)
  show ?thesis
  proof (cases "map_of (url_to_filename s) url")
    case None
    with r have "reconcile e url t s = Inr (fetch e url t s)" by simp
    with noskip None fetch show ?thesis by blast
  next
    case (Some existing)
    show ?thesis
    proof (cases "existing \<noteq> [] \<and> existing \<noteq> t")
      case True
      with r Some have "reconcile e url t s = migrate e url t existing s" by simp
      with noskip Some True migrate show ?thesis by blast
    next
      case False
      with r Some have "reconcile e url t s = Inr (fetch e url t s)" by auto
      moreover have "map_of (url_to_filename s) url \<in> {None, Some [], Some t}"
        using Some False by auto
      ultimately show ?thesis using noskip fetch by blast
    qed
  qed
qed

lemma process_url_cases:
  obtains (empty) "url = []" "process_url e ttl idx total_n url s = Inr s"
  | (unparsed) exc where "url \<noteq> []"
      "filename_from_title (urlparse_path e) ttl url idx total_n = Inl exc"
      "process_url e ttl idx total_n url s = Inl (exc, world s)"
  | (resolved) base ext where "url \<noteq> []"
      "filename_from_title (urlparse_path e) ttl url idx total_n = Inr (base, ext)"
      "process_url e ttl idx total_n url s =
         reconcile e url (choose_filename base ext url (image_cache s) (reserved_names s)) s"
proof (cases "url = []")
  case True
  then have "process_url e ttl idx total_n url s = Inr s" by (simp add: process_url_def)
  with True empty show ?thesis by blast
next
  case nonempty: False
  show ?thesis
  proof (cases "filename_from_title (urlparse_path e) ttl url idx total_n")
    case (Inl exc)
    with nonempty have "process_url e ttl idx total_n url s = Inl (exc, world s)"
      by (simp add: process_url_def)
    with nonempty Inl unparsed show ?thesis by blast
  next
    case (Inr names)
    obtain base ext where names: "names = (base, ext)" by (cases names)
    with nonempty Inr have "process_url e ttl idx total_n url s =
        reconcile e url (choose_filename base ext url (image_cache s) (reserved_names s)) s"
      by (simp add: process_url_def)
    with nonempty Inr names resolved show ?thesis by blast
  qed
qed

lemma agree_reconcile: "agree s \<Longrightarrow> reconcile e url t s = Inr s' \<Longrightarrow> agree s'"
proof (cases rule: reconcile_cases[of s t url e])
  case skip
  assume "agree s" "reconcile e url t s = Inr s'"
  with skip show ?thesis by (auto simp: agree_def)
next
  case fetch
  assume "agree s" "reconcile e url t s = Inr s'"
  with fetch show ?thesis by (auto intro: agree_fetch)
next
  case (migrate existing)
  assume "agree s" "reconcile e url t s = Inr s'"
  with migrate show ?thesis by (auto intro: agree_migrate)
qed

lemma agree_process_url:
  "agree s \<Longrightarrow> process_url e ttl idx total_n url s = Inr s' \<Longrightarrow> agree s'"
proof (cases rule: process_url_cases[of url e ttl idx total_n s])
  case empty
  assume "agree s" "process_url e ttl idx total_n url s = Inr s'"
  with empty show ?thesis by simp
next
  case (unparsed exc)
  assume "agree s" "process_url e ttl idx total_n url s = Inr s'"
  with unparsed show ?thesis by simp
next
  case (resolved base ext)
  assume "agree s" "process_url e ttl idx total_n url s = Inr s'"
  with resolved show ?thesis by (auto intro: agree_reconcile)
qed


section \<open>The loop leaves the cache file alone\<close>


lemma quiet_refl: "quiet p w w"
  by (simp add: quiet_def)

lemma quiet_trans: "quiet p w w1 \<Longrightarrow> quiet p w1 w2 \<Longrightarrow> quiet p w w2"
  unfolding quiet_def by (elim exE conjE, rule_tac x = "evs @ evsa" in exI) simp

lemma apply_op_other: "p \<notin> set (op_paths opn) \<Longrightarrow> apply_op opn f p = f p"
  by (cases opn) (auto split: option.splits)

lemma quiet_do_op: "p \<notin> set (op_paths opn) \<Longrightarrow> quiet p w (do_op opn w)"
  by (simp add: quiet_def apply_op_other)

lemma quiet_get: "quiet p w (w\<lparr>trace := trace w @ [Get url]\<rparr>)"
  by (simp add: quiet_def)

lemma quiet_do_ops: "\<forall>opn\<in>set ops. p \<notin> set (op_paths opn) \<Longrightarrow> quiet p w (do_ops ops w)"
proof (induction ops arbitrary: w)
  case Nil
  then show ?case by (simp add: do_ops_def quiet_refl)
next
  case (Cons opn ops)
  have "quiet p w (do_op opn w)" using Cons.prems by (simp add: quiet_do_op)
  moreover have "quiet p (do_op opn w) (do_ops ops (do_op opn w))"
    using Cons.prems by (intro Cons.IH) simp
  ultimately have "quiet p w (do_ops ops (do_op opn w))" by (rule quiet_trans)
  then show ?case by (simp add: do_ops_def)
qed

lemma quiet_try_fetch:
  assumes "p \<noteq> temp" "p \<noteq> destination"
  shows "quiet p w (snd (try_fetch answer url temp destination w))"
proof -
  let ?w1 = "w\<lparr>trace := trace w @ [Get url]\<rparr>"
  have q1: "quiet p w ?w1" by (rule quiet_get)
  show ?thesis
  proof (cases answer)
    case TransportError
    then show ?thesis using q1 by (simp add: try_fetch_def)
  next
    case (Response status chunks broken)
    let ?w1' = "do_op (OpenW temp) ?w1"
    let ?w2 = "do_ops (map (Write temp) (filter (\<lambda>chunk. chunk \<noteq> []) chunks)) ?w1'"
    have "quiet p ?w1 ?w1'" using assms(1) by (intro quiet_do_op) simp
    with q1 have q1': "quiet p w ?w1'" by (rule quiet_trans)
    have "quiet p ?w1' ?w2" using assms(1) by (intro quiet_do_ops) simp
    with q1' have q2: "quiet p w ?w2" by (rule quiet_trans)
    have "quiet p ?w2 (do_op (Replace temp destination) ?w2)"
      using assms by (intro quiet_do_op) simp
    with q2 have q3: "quiet p w (do_op (Replace temp destination) ?w2)" by (rule quiet_trans)
    show ?thesis using Response q1 q2 q3
      by (simp add: try_fetch_def Let_def split: option.splits)
  qed
qed

lemma quiet_download_loop:
  "p \<noteq> temp \<Longrightarrow> p \<noteq> destination \<Longrightarrow>
   quiet p w (snd (download_loop answers url temp destination retries attempt_no w))"
proof (induction answers url temp destination retries attempt_no w rule: download_loop.induct)
  case (1 answers url temp destination retries attempt_no w)
  note unf = download_loop.simps[of answers url temp destination retries attempt_no w]
  obtain r1 w1 where t: "try_fetch (answers (gets w)) url temp destination w = (r1, w1)"
    by (cases "try_fetch (answers (gets w)) url temp destination w")
  have q1: "quiet p w w1"
    using quiet_try_fetch[OF "1.prems", of w "answers (gets w)" url] by (simp add: t)
  show ?case
  proof (cases "retries < attempt_no")
    case True
    then show ?thesis by (simp add: unf quiet_refl)
  next
    case False
    show ?thesis
    proof (cases r1)
      case None
      then show ?thesis using False t q1 by (simp add: unf)
    next
      case (Some exc)
      let ?w2 = "do_op (Unlink temp) w1"
      have "quiet p w1 ?w2" using "1.prems"(1) by (intro quiet_do_op) simp
      with q1 have q2: "quiet p w ?w2" by (rule quiet_trans)
      show ?thesis
      proof (cases "attempt_no = retries")
        case True
        have "download_loop answers url temp destination retries attempt_no w = (Some exc, ?w2)"
          unfolding unf using False t Some True by (simp add: Let_def)
        then show ?thesis using q2 by simp
      next
        case ne: False
        from "1.IH"[OF False t[symmetric] Some refl ne "1.prems"]
        have "quiet p ?w2 (snd (download_loop answers url temp destination retries (attempt_no + 1) ?w2))" .
        with q2 have "quiet p w (snd (download_loop answers url temp destination retries (attempt_no + 1) ?w2))"
          by (rule quiet_trans)
        moreover have "download_loop answers url temp destination retries attempt_no w
            = download_loop answers url temp destination retries (attempt_no + 1) ?w2"
          unfolding unf using False t Some ne by (simp add: Let_def)
        ultimately show ?thesis by simp
      qed
    qed
  qed
qed

lemma cache_path_not_asset:
  "IMAGE_CACHE_PATH \<noteq> assets_path name" "IMAGE_CACHE_PATH \<noteq> assets_path name @ ''.part''"
  by (simp_all add: IMAGE_CACHE_PATH_def assets_path_def)

lemma quiet_fetch: "quiet IMAGE_CACHE_PATH (world s) (world (fetch e url target s))"
proof -
  have "quiet IMAGE_CACHE_PATH (world s)
          (snd (download_image (net e) url (assets_path target) 3 (world s)))"
    unfolding download_image_def by (intro quiet_download_loop cache_path_not_asset)
  then show ?thesis by (auto simp: fetch_def split: prod.splits option.splits)
qed

lemma quiet_migrate:
  "quiet IMAGE_CACHE_PATH (world s) (final_world (migrate e url target existing s))"
proof (cases "path_exists (world s) (assets_path existing)")
  case True
  have r: "quiet IMAGE_CACHE_PATH (world s)
             (do_op (Rename (assets_path existing) (assets_path target)) (world s))"
    by (intro quiet_do_op) (simp add: cache_path_not_asset)
  have "final_world (migrate e url target existing s)
          = do_op (Rename (assets_path existing) (assets_path target)) (world s)"
    using True by (simp add: migrate_def final_world_def Let_def split: sum.splits)
  with r show ?thesis by simp
next
  case False
  show ?thesis
  proof (cases "py_del existing (image_cache s)")
    case (Inl exc)
    with False have "final_world (migrate e url target existing s) = world s"
      by (simp add: migrate_def final_world_def)
    then show ?thesis by (simp add: quiet_refl)
  next
    case (Inr c)
    let ?s1 = "s\<lparr>image_cache := c, reserved_names := reserved_names s |-| {|existing|}\<rparr>"
    from Inr False have "final_world (migrate e url target existing s) = world (fetch e url target ?s1)"
      by (simp add: migrate_def final_world_def)
    moreover have "quiet IMAGE_CACHE_PATH (world ?s1) (world (fetch e url target ?s1))"
      by (rule quiet_fetch)
    ultimately show ?thesis by simp
  qed
qed

lemma quiet_reconcile:
  "quiet IMAGE_CACHE_PATH (world s) (final_world (reconcile e url t s))"
proof (cases rule: reconcile_cases[of s t url e])
  case skip
  then show ?thesis by (simp add: final_world_def quiet_refl)
next
  case fetch
  then show ?thesis using quiet_fetch[of s e url t] by (simp add: final_world_def)
next
  case (migrate existing)
  then show ?thesis using quiet_migrate[of s e url t existing] by simp
qed

lemma quiet_process_url:
  "quiet IMAGE_CACHE_PATH (world s) (final_world (process_url e ttl idx total_n url s))"
proof (cases rule: process_url_cases[of url e ttl idx total_n s])
  case empty
  then show ?thesis by (simp add: final_world_def quiet_refl)
next
  case (unparsed exc)
  then show ?thesis by (simp add: final_world_def quiet_refl)
next
  case (resolved base ext)
  then show ?thesis by (simp add: quiet_reconcile)
qed

lemma quiet_run_jobs:
  "quiet IMAGE_CACHE_PATH (world s) (final_world (run_jobs e js s))"
proof (induction js arbitrary: s)
  case Nil
  then show ?case by (simp add: final_world_def quiet_refl)
next
  case (Cons j js)
  obtain ttl idx total_n url where j: "j = (ttl, idx, total_n, url)" by (cases j)
  show ?case
  proof (cases "process_url e ttl idx total_n url s")
    case (Inl err)
    with quiet_process_url[of s e ttl idx total_n url] show ?thesis by (simp add: j final_world_def)
  next
    case (Inr s1)
    with quiet_process_url[of s e ttl idx total_n url]
    have "quiet IMAGE_CACHE_PATH (world s) (world s1)" by (simp add: final_world_def)
    from quiet_trans[OF this Cons.IH[of s1]] show ?thesis by (simp add: j Inr)
  qed
qed


section \<open>The name cache and the reserved names\<close>

text \<open>
  Claim C9. The nested loops of the reconciler are the run of the manifest's jobs in
  order, and after every number \<open>k\<close> of processed (poster, URL) pairs, whichever of
  skip, rename, stale drop, successful fetch and failed fetch each of them took, the
  reserved names are exactly the names held by the name cache: a name is in both or in
  neither.
\<close>

theorem cache_and_reserved_agree:
  "process_posters e posters (init_state cache w) = run_jobs e (jobs_of posters) (init_state cache w)
   \<and> (case run_jobs e (take k (jobs_of posters)) (init_state cache w) of
        Inl err \<Rightarrow> True
      | Inr s \<Rightarrow> reserved_names s = keys_of (image_cache s))"
proof -
  have "agree s" if "run_jobs e (take k (jobs_of posters)) (init_state cache w) = Inr s" for s
    using agree_process_url agree_init that by (rule run_jobs_invariant)
  then show ?thesis
    by (auto simp: process_posters_jobs agree_def split: sum.splits)
qed

section \<open>Evaluating the model on concrete inputs\<close>

lemma digit_chars:
  "digit_char 0 = CHR ''0''" "digit_char 1 = CHR ''1''" "digit_char 2 = CHR ''2''"
  "digit_char 3 = CHR ''3''" "digit_char 4 = CHR ''4''" "digit_char 5 = CHR ''5''"
  "digit_char 6 = CHR ''6''" "digit_char 7 = CHR ''7''" "digit_char 8 = CHR ''8''"
  "digit_char 9 = CHR ''9''"
  by code_simp+

lemmas eval_deriver = filename_from_title_def sanitize_title_def strip_chars_def is_space_def
  is_illegal_def is_underscore_def path_suffix_def path_stem_def path_name_def rfind_def
  plain_url_path_def drop_scheme_def drop_netloc_def is_scheme_char_def is_ascii_alpha_def
  str_int_def str_nat.simps digit_chars Let_def

lemmas eval_resolver = choose_filename_def choose_loop.simps conflict_cache_def
  conflict_reserved_def numbered_def str_nat.simps digit_chars

lemmas eval_main = main_def process_url_def reconcile_def migrate_def fetch_def py_del_def
  init_state_def keys_of_def assets_path_def path_exists_def save_json_def write_text_def
  IMAGE_CACHE_PATH_def final_world_def raised_def

lemmas eval_json = json_dumps_def json_string_def json_escape_def

section \<open>The deriver's fallback\<close>

text \<open>
  Claim C7 fails on the code. With an empty title and the URL \<^verbatim>\<open>http://x/foo.png\<close> the
  deriver returns the base name \<^verbatim>\<open>image\<close>, although the sanitized stem of the URL's
  path is \<^verbatim>\<open>foo\<close>: \<^verbatim>\<open>sanitize_title\<close> never returns the empty string, so the
  second operand of the \<^verbatim>\<open>or\<close> in \<^verbatim>\<open>filename_from_title\<close> is never evaluated.
\<close>

theorem empty_title_ignores_stem:
  "filename_from_title plain_url_path [] ''http://x/foo.png'' 0 1 = Inr (''image'', ''.png'')
   \<and> sanitize_title (path_stem ''/foo.png'') = ''foo''
   \<and> sanitize_title ttl \<noteq> []"
  by (simp add: eval_deriver)

section \<open>A failed fetch after a stale entry\<close>

text \<open>
  Claim C4 fails on the code. The cache maps \<^verbatim>\<open>Old.jpg\<close> to a URL whose file is
  missing, and two posters carry that URL. With the network down, the first occurrence
  drops the stale entry and its fetch fails (three requests); the URL index still names
  \<^verbatim>\<open>Old.jpg\<close>, so the second occurrence deletes that key again and the run ends in
  \<^verbatim>\<open>KeyError\<close>, before the cache is saved. With the network up the same run completes.
\<close>

theorem failed_fetch_then_key_error:
  "raised (main down_env (Some stale_posters) stale_cache empty_world) = Some (KeyError ''Old.jpg'')
   \<and> trace (final_world (main down_env (Some stale_posters) stale_cache empty_world)) =
       [Get ''http://x/a.jpg'', Fs (Unlink ''assets/New.jpg.part''),
        Get ''http://x/a.jpg'', Fs (Unlink ''assets/New.jpg.part''),
        Get ''http://x/a.jpg'', Fs (Unlink ''assets/New.jpg.part'')]
   \<and> raised (main ok_env (Some stale_posters) stale_cache empty_world) = None"
  by (simp add: eval_main eval_deriver eval_resolver eval_fetch ok_env_def down_env_def
      always_ok_def always_down_def stale_posters_def stale_cache_def empty_world_def)

section \<open>Writing the cache file\<close>

text \<open>
  Claim C5 as stated fails: the final write is not atomic. In a run over an empty
  manifest the cache file holds the same JSON text before the run and after it, and
  between the two events of the write it is empty.
\<close>

theorem cache_file_truncated_before_rewrite:
  "trace (final_world (main ok_env (Some []) stale_cache saved_world)) =
     [Fs (OpenW IMAGE_CACHE_PATH), Fs (Write IMAGE_CACHE_PATH (json_dumps stale_cache))]
   \<and> files saved_world IMAGE_CACHE_PATH = Some (json_dumps stale_cache)
   \<and> files (final_world (main ok_env (Some []) stale_cache saved_world)) IMAGE_CACHE_PATH
       = Some (json_dumps stale_cache)
   \<and> replay (take 1 (trace (final_world (main ok_env (Some []) stale_cache saved_world))))
        (files saved_world) IMAGE_CACHE_PATH = Some []
   \<and> json_dumps stale_cache \<noteq> []"
  by (simp add: main_def init_state_def save_json_def write_text_def do_op_def final_world_def
      saved_world_def replay_def json_dumps_def stale_cache_def)

lemma process_posters_quiet:
  "quiet IMAGE_CACHE_PATH w (final_world (process_posters e posters (init_state cache w)))"
  using quiet_run_jobs[of "init_state cache w" e "jobs_of posters"]
  by (simp add: process_posters_jobs init_state_def)

text \<open>
  Claim C5, as the code has it. Whatever the manifest, the cache and the network: a run
  that raises has not touched the cache file, whose content is as before the run; a run
  that completes touches it in its last two events only, the truncating open and the
  write of the whole JSON text of the final cache, which \<^verbatim>\<open>write_text\<close> performs.
\<close>

theorem cache_file_written_once_at_end:
  "case main e manifest cache w of
     Inl (exc, w') \<Rightarrow> quiet IMAGE_CACHE_PATH w w'
   | Inr s \<Rightarrow>
       (\<exists>evs. trace (world s) =
                 trace w @ evs @ [Fs (OpenW IMAGE_CACHE_PATH),
                                  Fs (Write IMAGE_CACHE_PATH (json_dumps (image_cache s)))]
              \<and> filter (touches IMAGE_CACHE_PATH) evs = [])
       \<and> files (world s) IMAGE_CACHE_PATH = Some (json_dumps (image_cache s))"
proof (cases manifest)
  case None
  then show ?thesis by (simp add: main_def quiet_refl)
next
  case (Some posters)
  note q = process_posters_quiet[of w e posters cache]
  show ?thesis
  proof (cases "process_posters e posters (init_state cache w)")
    case (Inl err)
    obtain exc w' where err: "err = (exc, w')" by (cases err)
    with Inl q have "quiet IMAGE_CACHE_PATH w w'" by (simp add: final_world_def)
    with Some Inl err show ?thesis by (simp add: main_def)
  next
    case (Inr s)
    with q obtain evs where evs: "trace (world s) = trace w @ evs"
      "filter (touches IMAGE_CACHE_PATH) evs = []"
      by (auto simp: final_world_def quiet_def)
    let ?s' = "s\<lparr>world := save_json IMAGE_CACHE_PATH (image_cache s) (world s)\<rparr>"
    have m: "main e manifest cache w = Inr ?s'" using Some Inr by (simp add: main_def)
    have "trace (world ?s') = trace w @ evs @ [Fs (OpenW IMAGE_CACHE_PATH),
            Fs (Write IMAGE_CACHE_PATH (json_dumps (image_cache ?s')))]"
      using evs(1) by (simp add: save_json_def write_text_def)
    moreover have "files (world ?s') IMAGE_CACHE_PATH = Some (json_dumps (image_cache ?s'))"
      by (simp add: save_json_def write_text_def)
    ultimately show ?thesis using evs(2) unfolding m by simp
  qed
qed

section \<open>Re-running on a warm cache\<close>


lemma satisfied_skipped [simp]: "satisfied e (s\<lparr>skipped := k\<rparr>) = satisfied e s"
  by (rule ext)
     (simp add: satisfied_def resolved_name_def path_exists_def
           cong: sum.case_cong option.case_cong prod.case_cong)

lemma satisfied_step:
  assumes "satisfied e s (ttl, idx, total_n, url)"
  shows "process_url e ttl idx total_n url s =
           Inr (s\<lparr>skipped := skipped s + (if url \<noteq> [] then 1 else 0)\<rparr>)"
proof (cases rule: process_url_cases[of url e ttl idx total_n s])
  case empty
  then show ?thesis by simp
next
  case (unparsed exc)
  with assms show ?thesis by (simp add: satisfied_def resolved_name_def)
next
  case (resolved base ext)
  let ?t = "choose_filename base ext url (image_cache s) (reserved_names s)"
  from assms resolved(1,2) have hit: "map_of (image_cache s) ?t = Some url"
    "path_exists (world s) (assets_path ?t)"
    by (simp_all add: satisfied_def resolved_name_def)
  then have "reconcile e url ?t s = Inr (s\<lparr>skipped := skipped s + 1\<rparr>)"
    by (simp add: reconcile_def)
  with resolved show ?thesis by simp
qed

lemma run_jobs_satisfied:
  "list_all (satisfied e s) js \<Longrightarrow>
   run_jobs e js s = Inr (s\<lparr>skipped := skipped s + length (filter nonempty_url js)\<rparr>)"
proof (induction js arbitrary: s)
  case Nil
  then show ?case by simp
next
  case (Cons j js)
  obtain ttl idx total_n url where j: "j = (ttl, idx, total_n, url)" by (cases j)
  let ?s1 = "s\<lparr>skipped := skipped s + (if url \<noteq> [] then 1 else 0)\<rparr>"
  from Cons.prems j have step: "process_url e ttl idx total_n url s = Inr ?s1"
    by (intro satisfied_step) simp
  from Cons.prems have "list_all (satisfied e ?s1) js" by simp
  from Cons.IH[OF this] step show ?case
    by (simp add: j nonempty_url_def)
qed

text \<open>
  Claim C3, as the code has it. When every job of the manifest is satisfied in the
  initial state (the name resolved for its URL is cached for that URL and the asset file
  exists), the run completes with every non-empty URL skipped: no download, no rename,
  the cache unchanged, and the write of the cache file as the only events.
\<close>

theorem warm_rerun_only_skips:
  "list_all (satisfied e (init_state cache w)) (jobs_of posters) \<Longrightarrow>
   (case main e (Some posters) cache w of
      Inl err \<Rightarrow> False
    | Inr s \<Rightarrow> downloaded s = 0 \<and> renamed s = 0
               \<and> skipped s = length (filter nonempty_url (jobs_of posters))
               \<and> image_cache s = cache
               \<and> trace (world s) =
                   trace w @ [Fs (OpenW IMAGE_CACHE_PATH),
                              Fs (Write IMAGE_CACHE_PATH (json_dumps cache))])"
proof -
  assume "list_all (satisfied e (init_state cache w)) (jobs_of posters)"
  from run_jobs_satisfied[OF this]
  have "process_posters e posters (init_state cache w) =
          Inr (init_state cache w\<lparr>skipped := length (filter nonempty_url (jobs_of posters))\<rparr>)"
    by (simp add: process_posters_jobs init_state_def)
  then show ?thesis
    by (simp add: main_def init_state_def save_json_def write_text_def)
qed





lemma warm_first: "resolved_name ok_env ''Dup'' 0 1 ''http://x/a.jpg'' (init_state warm_cache warm_world) = Some ''Dup.jpg''"
  by (simp add: resolved_name_def ok_env_def warm_cache_def init_state_def keys_of_def eval_deriver eval_resolver)

lemma warm_second: "resolved_name ok_env ''Dup'' 0 1 ''http://x/b.jpg'' (init_state warm_cache warm_world) = Some ''Dup_2.jpg''"
  by (simp add: resolved_name_def ok_env_def warm_cache_def init_state_def keys_of_def eval_deriver eval_resolver)

lemma dup_jobs: "jobs_of dup_posters = [(''Dup'', 0, 1, ''http://x/a.jpg''), (''Dup'', 0, 1, ''http://x/b.jpg'')]"
  by (simp add: jobs_of_def dup_posters_def)

lemma warm_jobs:
  "list_all (satisfied ok_env (init_state warm_cache warm_world)) (jobs_of dup_posters)"
  unfolding dup_jobs
  by (simp add: satisfied_def warm_first warm_second)
     (simp add: init_state_def warm_cache_def warm_world_def path_exists_def assets_path_def)


theorem warm_rerun_only_skips_witness:
  "list_all (satisfied ok_env (init_state warm_cache warm_world)) (jobs_of dup_posters)
   \<and> (case main ok_env (Some dup_posters) warm_cache warm_world of
        Inl err \<Rightarrow> False
      | Inr s \<Rightarrow> downloaded s = 0 \<and> renamed s = 0 \<and> skipped s = 2 \<and> image_cache s = warm_cache)"
proof -
  have n: "length (filter nonempty_url (jobs_of dup_posters)) = 2"
    by (simp add: dup_jobs nonempty_url_def)
  show ?thesis
    using warm_rerun_only_skips[OF warm_jobs] warm_jobs
    by (cases "main ok_env (Some dup_posters) warm_cache warm_world") (simp_all add: n)
qed

text \<open>
  Claim C3 as stated fails. Two posters with different titles carry the same URL. A
  first run on an empty store fetches the image once and renames it, and leaves a cache
  whose only entry maps to its URL and whose asset file exists. The second run over the
  same manifest renames the file twice instead of skipping.
\<close>

theorem rerun_renames_again:
  "(case main ok_env (Some twice_posters) [] empty_world of
      Inl err \<Rightarrow> False
    | Inr s1 \<Rightarrow>
        image_cache s1 = [(''T2.jpg'', ''http://x/a.jpg'')]
        \<and> path_exists (world s1) (assets_path ''T2.jpg'')
        \<and> (case main ok_env (Some twice_posters) (image_cache s1) (world s1) of
              Inl err \<Rightarrow> False
            | Inr s2 \<Rightarrow> downloaded s2 = 0 \<and> renamed s2 = 2 \<and> skipped s2 = 0
                        \<and> image_cache s2 = [(''T2.jpg'', ''http://x/a.jpg'')]))"
  by (simp add: eval_main eval_deriver eval_resolver eval_fetch ok_env_def always_ok_def
      twice_posters_def empty_world_def)

section \<open>Uniqueness of names\<close>


lemma choose_filename_unbound:
  "map_of cache (choose_filename base ext url cache reserved) = Some other \<Longrightarrow> other = url"
proof -
  assume bound: "map_of cache (choose_filename base ext url cache reserved) = Some other"
  obtain m where "choose_loop base ext url cache reserved (base @ ext) 2 = tried base ext m"
    "\<not> conflict_cache (tried base ext m) url cache"
    using choose_loop_tried[of "base @ ext" base ext 0 2 url cache reserved] by auto
  then have "\<not> conflict_cache (choose_filename base ext url cache reserved) url cache"
    by (simp add: choose_filename_def)
  with bound show ?thesis by (simp add: conflict_cache_def)
qed


lemma keyed_fetch: "keyed s \<Longrightarrow> keyed (fetch e url t s)"
  by (simp add: keyed_def fetch_def distinct_update split: prod.splits option.splits)

lemma keyed_migrate: "keyed s \<Longrightarrow> migrate e url t existing s = Inr s' \<Longrightarrow> keyed s'"
proof -
  assume k: "keyed s" and m: "migrate e url t existing s = Inr s'"
  show ?thesis
  proof (cases "path_exists (world s) (assets_path existing)")
    case True
    with m k show ?thesis
      by (auto simp: migrate_def py_del_def Let_def keyed_def distinct_update distinct_delete
               split: if_splits)
  next
    case False
    let ?s1 = "s\<lparr>image_cache := AList.delete existing (image_cache s),
                  reserved_names := reserved_names s |-| {|existing|}\<rparr>"
    from False m have s': "s' = fetch e url t ?s1"
      by (auto simp: migrate_def py_del_def split: if_splits)
    have "keyed ?s1" using k by (simp add: keyed_def distinct_delete)
    then show ?thesis unfolding s' by (rule keyed_fetch)
  qed
qed

lemma keyed_reconcile: "keyed s \<Longrightarrow> reconcile e url t s = Inr s' \<Longrightarrow> keyed s'"
proof (cases rule: reconcile_cases[of s t url e])
  case skip
  assume "keyed s" "reconcile e url t s = Inr s'"
  with skip show ?thesis by (auto simp: keyed_def)
next
  case fetch
  assume "keyed s" "reconcile e url t s = Inr s'"
  with fetch show ?thesis by (auto intro: keyed_fetch)
next
  case (migrate existing)
  assume "keyed s" "reconcile e url t s = Inr s'"
  with migrate show ?thesis by (auto intro: keyed_migrate)
qed

lemma keyed_process_url:
  "keyed s \<Longrightarrow> process_url e ttl idx total_n url s = Inr s' \<Longrightarrow> keyed s'"
proof (cases rule: process_url_cases[of url e ttl idx total_n s])
  case empty
  assume "keyed s" "process_url e ttl idx total_n url s = Inr s'"
  with empty show ?thesis by simp
next
  case (unparsed exc)
  assume "keyed s" "process_url e ttl idx total_n url s = Inr s'"
  with unparsed show ?thesis by simp
next
  case (resolved base ext)
  assume "keyed s" "process_url e ttl idx total_n url s = Inr s'"
  with resolved show ?thesis by (auto intro: keyed_reconcile)
qed

lemma resolved_name_unbound:
  "resolved_name e ttl idx total_n url s = Some name \<Longrightarrow>
   map_of (image_cache s) name = Some other \<Longrightarrow> other = url"
  by (auto simp: resolved_name_def split: sum.splits dest: choose_filename_unbound)

text \<open>
  Claim C1, as the code has it. Started on a cache with unique keys, the cache has
  unique keys after every number \<open>k\<close> of processed pairs, so it never maps a filename
  to two URLs; and in each of these states the filename the resolver returns for a URL
  is never one that the cache binds to a different URL.
\<close>

theorem names_unique_among_installed:
  "distinct (map fst cache) \<Longrightarrow>
   (case run_jobs e (take k (jobs_of posters)) (init_state cache w) of
      Inl err \<Rightarrow> True
    | Inr s \<Rightarrow>
        distinct (map fst (image_cache s))
        \<and> (\<forall>ttl idx total_n url name other.
              resolved_name e ttl idx total_n url s = Some name
              \<and> map_of (image_cache s) name = Some other \<longrightarrow> other = url))"
proof -
  assume d: "distinct (map fst cache)"
  then have init: "keyed (init_state cache w)" by (simp add: keyed_def init_state_def)
  have "keyed s" if "run_jobs e (take k (jobs_of posters)) (init_state cache w) = Inr s" for s
    using keyed_process_url init that by (rule run_jobs_invariant)
  then show ?thesis
    by (auto simp: keyed_def split: sum.splits dest: resolved_name_unbound)
qed


text \<open>
  Claim C1 as stated fails in its second half. Two posters titled \<^verbatim>\<open>Dup\<close> carry two
  distinct URLs and the network is down: the resolver returns \<^verbatim>\<open>Dup.jpg\<close> for the
  first URL, its fetch fails, nothing is installed, and the resolver returns
  \<^verbatim>\<open>Dup.jpg\<close> for the second URL as well.
\<close>

theorem failed_fetch_frees_name:
  "jobs_of dup_posters =
     [(''Dup'', 0, 1, ''http://x/a.jpg''), (''Dup'', 0, 1, ''http://x/b.jpg'')]
   \<and> resolved_name down_env ''Dup'' 0 1 ''http://x/a.jpg'' (init_state [] empty_world)
       = Some ''Dup.jpg''
   \<and> (case run_jobs down_env (take 1 (jobs_of dup_posters)) (init_state [] empty_world) of
        Inl err \<Rightarrow> False
      | Inr s \<Rightarrow> resolved_name down_env ''Dup'' 0 1 ''http://x/b.jpg'' s = Some ''Dup.jpg'')"
  unfolding dup_jobs
  by (simp add: resolved_name_def eval_main eval_deriver eval_resolver eval_fetch down_env_def
      always_down_def empty_world_def)


lemma dup_first_resolved:
  "(case run_jobs ok_env (take 1 (jobs_of dup_posters)) (init_state [] empty_world) of
      Inl err \<Rightarrow> False
    | Inr s \<Rightarrow>
        resolved_name ok_env ''Dup'' 0 1 ''http://x/a.jpg'' s = Some ''Dup.jpg''
        \<and> map_of (image_cache s) ''Dup.jpg'' = Some ''http://x/a.jpg''
        \<and> resolved_name ok_env ''Dup'' 0 1 ''http://x/b.jpg'' s = Some ''Dup_2.jpg'')"
  unfolding dup_jobs
  by (simp add: resolved_name_def eval_main eval_deriver eval_resolver eval_fetch ok_env_def
      always_ok_def empty_world_def)

theorem names_unique_among_installed_witness:
  "distinct (map fst ([] :: (string \<times> string) list))
   \<and> (case run_jobs ok_env (take 1 (jobs_of dup_posters)) (init_state [] empty_world) of
        Inl err \<Rightarrow> False
      | Inr s \<Rightarrow>
          resolved_name ok_env ''Dup'' 0 1 ''http://x/a.jpg'' s = Some ''Dup.jpg''
          \<and> map_of (image_cache s) ''Dup.jpg'' = Some ''http://x/a.jpg''
          \<and> resolved_name ok_env ''Dup'' 0 1 ''http://x/b.jpg'' s = Some ''Dup_2.jpg'')"
proof -
  have d: "distinct (map fst ([] :: (string \<times> string) list))" by simp
  note inst = names_unique_among_installed[OF d, of ok_env 1 dup_posters empty_world]
  from inst dup_first_resolved d show ?thesis by (intro conjI)
qed

section \<open>Two posters with the same title\<close>


lemma gets_do_op [simp]: "gets (do_op opn w) = gets w"
  by (simp add: gets_def)

lemma gets_do_ops [simp]: "gets (do_ops ops w) = gets w"
  unfolding do_ops_def by (induction ops arbitrary: w) auto










end
